theory Spec2Isabelle
  imports Complex_Main "HOL-Library.Word" "HOL-Library.Sublist"
begin

unbundle bit_operations_syntax

section \<open>Strings and character classes\<close>

text \<open>
  A Python \<open>str\<close> is modelled as a \<open>string\<close> whose characters are the code points
  0 to 255. The classes below are the ones Python's \<open>re\<close> and \<open>str\<close> methods use on that
  range: \<open>\s\<close> and \<open>str.strip\<close> (Unicode white space), \<open>\d\<close> (decimal digits),
  \<open>\w\<close> (alphanumerics and the underscore) and \<open>str.lower\<close>.
\<close>

definition is_space :: "char \<Rightarrow> bool" where
  "is_space c = (of_char c \<in> set [9, 10, 11, 12, 13, 28, 29, 30, 31, 32, 133, 160 :: nat])"

definition is_digit :: "char \<Rightarrow> bool" where
  "is_digit c = (c \<in> set ''0123456789'')"

definition is_upper_ascii :: "char \<Rightarrow> bool" where
  "is_upper_ascii c = (let n = (of_char c :: nat) in 65 \<le> n \<and> n \<le> 90)"

definition is_word :: "char \<Rightarrow> bool" where
  "is_word c = (let n = (of_char c :: nat) in
     (48 \<le> n \<and> n \<le> 57) \<or> (65 \<le> n \<and> n \<le> 90) \<or> n = 95 \<or> (97 \<le> n \<and> n \<le> 122)
     \<or> n \<in> set [170, 178, 179, 181, 185, 186, 188, 189, 190]
     \<or> (192 \<le> n \<and> n \<le> 214) \<or> (216 \<le> n \<and> n \<le> 246) \<or> 248 \<le> n)"

definition lower_char :: "char \<Rightarrow> char" where
  "lower_char c = (let n = (of_char c :: nat) in
     if (65 \<le> n \<and> n \<le> 90) \<or> (192 \<le> n \<and> n \<le> 214) \<or> (216 \<le> n \<and> n \<le> 222)
     then char_of (n + 32) else c)"

definition lower :: "string \<Rightarrow> string" where
  "lower s = map lower_char s"

definition strip :: "string \<Rightarrow> string" where
  "strip s = rev (dropWhile is_space (rev (dropWhile is_space s)))"

definition rstrip_chars :: "string \<Rightarrow> string \<Rightarrow> string" where
  "rstrip_chars chars s = rev (dropWhile (\<lambda>c. c \<in> set chars) (rev s))"

definition int_of_digits :: "string \<Rightarrow> int" where
  "int_of_digits s = foldl (\<lambda>n c. 10 * n + int (of_char c - 48)) 0 s"

function str_nat :: "nat \<Rightarrow> string" where
  "str_nat n = (if n < 10 then [char_of (48 + n)] else str_nat (n div 10) @ [char_of (48 + n mod 10)])"
  by pat_completeness auto
termination
  by (relation "measure id") auto

declare str_nat.simps [simp del]

definition str_int :: "int \<Rightarrow> string" where
  "str_int i = (if i < 0 then CHR ''-'' # str_nat (nat (- i)) else str_nat (nat i))"

section \<open>Regular expressions\<close>

text \<open>
  The patterns of the source are matched by Python's backtracking matcher. \<open>rmatch r st\<close>
  lists the states the matcher can reach from \<open>st\<close> with pattern \<open>r\<close>, in the order in
  which backtracking tries them, so the head of the list is the match Python reports. A state
  holds the character before the current position (for \<open>\b\<close>), the rest of the input and
  the text of capture group 1. \<open>Star True\<close> is a greedy repetition, \<open>Star False\<close> a
  lazy one.
\<close>

datatype regex =
    Eps
  | Cls "char \<Rightarrow> bool"
  | Seq regex regex
  | Alt regex regex
  | Star bool regex
  | Group regex
  | WordB

type_synonym mstate = "char option \<times> string \<times> string option"

definition at_boundary :: "char option \<Rightarrow> string \<Rightarrow> bool" where
  "at_boundary prev s =
     ((case prev of None \<Rightarrow> False | Some c \<Rightarrow> is_word c)
        \<noteq> (case s of [] \<Rightarrow> False | c # _ \<Rightarrow> is_word c))"

fun rmatch :: "regex \<Rightarrow> mstate \<Rightarrow> mstate list" where
  "rmatch Eps st = [st]"
| "rmatch (Cls P) (prev, s, g) =
     (case s of [] \<Rightarrow> [] | c # cs \<Rightarrow> if P c then [(Some c, cs, g)] else [])"
| "rmatch (Seq r1 r2) st = concat (map (rmatch r2) (rmatch r1 st))"
| "rmatch (Alt r1 r2) st = rmatch r1 st @ rmatch r2 st"
| "rmatch (Star greedy r) (prev, s, g) =
     (let more = concat (map (\<lambda>(prev', s', g').
                    if length s' < length s then rmatch (Star greedy r) (prev', s', g') else [])
                   (rmatch r (prev, s, g)))
      in if greedy then more @ [(prev, s, g)] else (prev, s, g) # more)"
| "rmatch (Group r) (prev, s, g) =
     map (\<lambda>(prev', s', g'). (prev', s', Some (take (length s - length s') s)))
       (rmatch r (prev, s, g))"
| "rmatch WordB (prev, s, g) = (if at_boundary prev s then [(prev, s, g)] else [])"

text \<open>\<open>re.search\<close>: the leftmost start position with a match; the result is group 1.\<close>

fun search_from :: "regex \<Rightarrow> char option \<Rightarrow> string \<Rightarrow> mstate option" where
  "search_from r prev s =
     (case rmatch r (prev, s, None) of
        st # _ \<Rightarrow> Some st
      | [] \<Rightarrow> (case s of [] \<Rightarrow> None | c # cs \<Rightarrow> search_from r (Some c) cs))"

definition re_search :: "regex \<Rightarrow> string \<Rightarrow> string option" where
  "re_search r s = (case search_from r None s of
      None \<Rightarrow> None
    | Some (prev, rest, g) \<Rightarrow> Some (case g of None \<Rightarrow> [] | Some x \<Rightarrow> x))"

text \<open>
  \<open>re.sub\<close> and \<open>re.findall\<close>: the non-overlapping matches from left to right. Every
  pattern of the source matches at least one character; after an empty match the scan moves
  on by one character.
\<close>

fun sub_from :: "regex \<Rightarrow> string \<Rightarrow> char option \<Rightarrow> string \<Rightarrow> string" where
  "sub_from r repl prev s =
     (case rmatch r (prev, s, None) of
        (prev', s', g) # _ \<Rightarrow>
          (if length s' < length s then repl @ sub_from r repl prev' s'
           else (case s of [] \<Rightarrow> repl | c # cs \<Rightarrow> repl @ c # sub_from r repl (Some c) cs))
      | [] \<Rightarrow> (case s of [] \<Rightarrow> [] | c # cs \<Rightarrow> c # sub_from r repl (Some c) cs))"

definition re_sub :: "regex \<Rightarrow> string \<Rightarrow> string \<Rightarrow> string" where
  "re_sub r repl s = sub_from r repl None s"

fun findall_from :: "regex \<Rightarrow> char option \<Rightarrow> string \<Rightarrow> string list" where
  "findall_from r prev s =
     (case rmatch r (prev, s, None) of
        (prev', s', g) # _ \<Rightarrow>
          (let x = (case g of None \<Rightarrow> [] | Some x \<Rightarrow> x) in
           if length s' < length s then x # findall_from r prev' s'
           else (case s of [] \<Rightarrow> [x] | c # cs \<Rightarrow> x # findall_from r (Some c) cs))
      | [] \<Rightarrow> (case s of [] \<Rightarrow> [] | c # cs \<Rightarrow> findall_from r (Some c) cs))"

definition re_findall :: "regex \<Rightarrow> string \<Rightarrow> string list" where
  "re_findall r s = findall_from r None s"

text \<open>Pattern constructors: a character, a class, a literal, \<open>+\<close>, \<open>+?\<close>, \<open>*\<close>, \<open>?\<close>, \<open>{4}\<close>.\<close>

definition chr :: "char \<Rightarrow> regex" where
  "chr c = Cls (\<lambda>x. x = c)"

definition one_of :: "string \<Rightarrow> regex" where
  "one_of cs = Cls (\<lambda>x. x \<in> set cs)"

definition chr_ci :: "char \<Rightarrow> regex" where
  "chr_ci c = Cls (\<lambda>x. lower_char x = lower_char c)"

definition lit :: "string \<Rightarrow> regex" where
  "lit s = foldr (\<lambda>c r. Seq (chr c) r) s Eps"

definition lit_ci :: "string \<Rightarrow> regex" where
  "lit_ci s = foldr (\<lambda>c r. Seq (chr_ci c) r) s Eps"

definition plus :: "regex \<Rightarrow> regex" where
  "plus r = Seq r (Star True r)"

definition lazy_plus :: "regex \<Rightarrow> regex" where
  "lazy_plus r = Seq r (Star False r)"

definition star :: "regex \<Rightarrow> regex" where
  "star r = Star True r"

definition opt :: "regex \<Rightarrow> regex" where
  "opt r = Alt r Eps"

definition rep4 :: "regex \<Rightarrow> regex" where
  "rep4 r = Seq r (Seq r (Seq r r))"

fun seqs :: "regex list \<Rightarrow> regex" where
  "seqs [] = Eps"
| "seqs (r # rs) = Seq r (seqs rs)"

section \<open>MD5\<close>

text \<open>
  \<open>hashlib.md5(s.encode()).hexdigest()\<close>: the text is encoded as UTF-8, padded, and hashed
  in blocks of 64 bytes (RFC 1321); the digest is printed as 32 hexadecimal digits.
\<close>

definition md5_K :: "32 word list" where
  "md5_K =
    [0xd76aa478, 0xe8c7b756, 0x242070db, 0xc1bdceee,
     0xf57c0faf, 0x4787c62a, 0xa8304613, 0xfd469501,
     0x698098d8, 0x8b44f7af, 0xffff5bb1, 0x895cd7be,
     0x6b901122, 0xfd987193, 0xa679438e, 0x49b40821,
     0xf61e2562, 0xc040b340, 0x265e5a51, 0xe9b6c7aa,
     0xd62f105d, 0x02441453, 0xd8a1e681, 0xe7d3fbc8,
     0x21e1cde6, 0xc33707d6, 0xf4d50d87, 0x455a14ed,
     0xa9e3e905, 0xfcefa3f8, 0x676f02d9, 0x8d2a4c8a,
     0xfffa3942, 0x8771f681, 0x6d9d6122, 0xfde5380c,
     0xa4beea44, 0x4bdecfa9, 0xf6bb4b60, 0xbebfbc70,
     0x289b7ec6, 0xeaa127fa, 0xd4ef3085, 0x04881d05,
     0xd9d4d039, 0xe6db99e5, 0x1fa27cf8, 0xc4ac5665,
     0xf4292244, 0x432aff97, 0xab9423a7, 0xfc93a039,
     0x655b59c3, 0x8f0ccc92, 0xffeff47d, 0x85845dd1,
     0x6fa87e4f, 0xfe2ce6e0, 0xa3014314, 0x4e0811a1,
     0xf7537e82, 0xbd3af235, 0x2ad7d2bb, 0xeb86d391]"

definition md5_s :: "nat list" where
  "md5_s = [7, 12, 17, 22, 7, 12, 17, 22, 7, 12, 17, 22, 7, 12, 17, 22,
            5, 9, 14, 20, 5, 9, 14, 20, 5, 9, 14, 20, 5, 9, 14, 20,
            4, 11, 16, 23, 4, 11, 16, 23, 4, 11, 16, 23, 4, 11, 16, 23,
            6, 10, 15, 21, 6, 10, 15, 21, 6, 10, 15, 21, 6, 10, 15, 21]"

definition rotl32 :: "32 word \<Rightarrow> nat \<Rightarrow> 32 word" where
  "rotl32 x n = (push_bit n x) OR (drop_bit (32 - n) x)"

definition md5_pad :: "8 word list \<Rightarrow> 8 word list" where
  "md5_pad msg = (let n = length msg;
                      z = (55 + 64 - n mod 64) mod 64;
                      bits = (of_nat (8 * n) :: 64 word)
     in msg @ [0x80] @ replicate z 0 @ map (\<lambda>i. ucast (drop_bit (8 * i) bits)) [0..<8])"

definition le32 :: "8 word list \<Rightarrow> 32 word" where
  "le32 bs = foldr (\<lambda>b acc. ucast b OR push_bit 8 acc) bs 0"

fun chunks :: "nat \<Rightarrow> nat \<Rightarrow> 'a list \<Rightarrow> 'a list list" where
  "chunks 0 k xs = []"
| "chunks (Suc n) k xs = take k xs # chunks n k (drop k xs)"

definition md5_step :: "32 word list \<Rightarrow> 32 word \<times> 32 word \<times> 32 word \<times> 32 word \<Rightarrow> nat
    \<Rightarrow> 32 word \<times> 32 word \<times> 32 word \<times> 32 word" where
  "md5_step M st i = (case st of (A, B, C, D) \<Rightarrow>
     let (F, g) = (if i < 16 then ((B AND C) OR (NOT B AND D), i)
                   else if i < 32 then ((D AND B) OR (NOT D AND C), (5 * i + 1) mod 16)
                   else if i < 48 then (B XOR C XOR D, (3 * i + 5) mod 16)
                   else (C XOR (B OR NOT D), (7 * i) mod 16));
         F' = F + A + md5_K ! i + M ! g
     in (D, B + rotl32 F' (md5_s ! i), B, C))"

definition md5_block :: "32 word \<times> 32 word \<times> 32 word \<times> 32 word \<Rightarrow> 8 word list
    \<Rightarrow> 32 word \<times> 32 word \<times> 32 word \<times> 32 word" where
  "md5_block st blk = (case st of (a0, b0, c0, d0) \<Rightarrow>
     let M = map le32 (chunks 16 4 blk) in
     case foldl (md5_step M) st [0..<64] of (A, B, C, D) \<Rightarrow> (a0 + A, b0 + B, c0 + C, d0 + D))"

definition hexdigit :: "nat \<Rightarrow> char" where
  "hexdigit n = ''0123456789abcdef'' ! n"

definition hex_byte :: "8 word \<Rightarrow> string" where
  "hex_byte b = [hexdigit (unat b div 16), hexdigit (unat b mod 16)]"

definition bytes_le32 :: "32 word \<Rightarrow> 8 word list" where
  "bytes_le32 w = map (\<lambda>i. ucast (drop_bit (8 * i) w)) [0..<4]"

definition md5_hexdigest :: "8 word list \<Rightarrow> string" where
  "md5_hexdigest msg = (let p = md5_pad msg in
     case foldl md5_block (0x67452301, 0xefcdab89, 0x98badcfe, 0x10325476)
            (chunks (length p div 64) 64 p)
     of (A, B, C, D) \<Rightarrow> concat (map hex_byte (concat (map bytes_le32 [A, B, C, D]))))"

definition encode :: "string \<Rightarrow> 8 word list" where
  "encode s = concat (map (\<lambda>c. let n = (of_char c :: nat) in
      if n < 128 then [of_nat n] else [of_nat (192 + n div 64), of_nat (128 + n mod 64)]) s)"

definition md5 :: "string \<Rightarrow> string" where
  "md5 s = md5_hexdigest (encode s)"

section \<open>Citation\<close>

text \<open>
  The dataclass \<open>Citation\<close>. Its \<open>__eq__\<close> compares all eight fields, which is the
  equality of the record. A field is true in a condition (\<open>if self.doi\<close>, \<open>if citation.year\<close>)
  when it is neither \<open>None\<close> nor empty, respectively zero.
\<close>

record citation =
  "text" :: string
  author :: string
  year :: "int option"
  category :: string
  normalized_text :: string
  fingerprint :: string
  doi :: "string option"
  title :: "string option"

definition truthy_str :: "string option \<Rightarrow> bool" where
  "truthy_str s = (case s of None \<Rightarrow> False | Some x \<Rightarrow> x \<noteq> [])"

definition truthy_int :: "int option \<Rightarrow> bool" where
  "truthy_int y = (case y of None \<Rightarrow> False | Some n \<Rightarrow> n \<noteq> 0)"

definition valid_year :: "int \<Rightarrow> bool" where
  "valid_year y = (1950 \<le> y \<and> y \<le> 2030)"

definition extract_year :: "citation \<Rightarrow> int option" where
  "extract_year self =
     (let fallback = (case filter valid_year (map int_of_digits
                              (re_findall (seqs [WordB, Group (rep4 (Cls is_digit)), WordB]) (text self))) of
                        [] \<Rightarrow> None | y # _ \<Rightarrow> Some y)
      in case re_search (seqs [chr CHR ''('', Group (rep4 (Cls is_digit)), chr CHR '')'']) (text self) of
           Some g \<Rightarrow> (let year = int_of_digits g in if valid_year year then Some year else fallback)
         | None \<Rightarrow> fallback)"

definition normalize_text :: "citation \<Rightarrow> string" where
  "normalize_text self =
     (let t = lower (text self);
          t = re_sub (plus (Cls (\<lambda>c. c = CHR ''&'' \<or> is_space c))) '' '' t;
          t = re_sub (one_of (''.,;:!?'' @ [CHR 0x22])) [] t;
          t = re_sub (plus (Cls is_space)) '' '' t;
          t = re_sub (seqs [lit ''doi:'', star (Cls is_space)]) [] t;
          t = re_sub (seqs [lit ''http'', opt (chr CHR ''s''), lit ''://'',
                            plus (Cls (\<lambda>c. \<not> is_space c))]) [] t;
          t = re_sub (seqs [chr CHR ''('', star (Cls (\<lambda>c. c \<noteq> CHR '')'')), chr CHR '')'']) [] t;
          t = re_sub (seqs [lit ''vol.'', star (Cls is_space), plus (Cls is_digit)]) [] t;
          t = re_sub (seqs [chr CHR ''p'', opt (chr CHR ''p''), chr CHR ''.'', star (Cls is_space),
                            plus (Cls is_digit), chr CHR ''-'', plus (Cls is_digit)]) [] t
      in strip t)"

definition doi_token :: regex where
  "doi_token = plus (Cls (\<lambda>c. \<not> is_space c \<and> c \<noteq> CHR '','' \<and> c \<noteq> CHR '')''))"

definition doi_body :: regex where
  "doi_body = seqs [plus (Cls (\<lambda>c. is_digit c \<or> c = CHR ''.'')), chr CHR ''/'', doi_token]"

definition doi_patterns :: "regex list" where
  "doi_patterns =
     [seqs [lit_ci ''doi:'', star (Cls is_space), Group doi_body],
      seqs [lit_ci ''http'', opt (chr_ci CHR ''s''), lit_ci ''://doi.org/'', Group doi_body],
      seqs [lit_ci ''http'', opt (chr_ci CHR ''s''), lit_ci ''://dx.doi.org/'', Group doi_body],
      seqs [WordB, Group (seqs [lit ''10.'', plus (Cls is_digit), chr CHR ''/'', doi_token])]]"

fun doi_loop :: "regex list \<Rightarrow> string \<Rightarrow> string option" where
  "doi_loop [] t = None"
| "doi_loop (pattern # patterns) t =
     (case re_search pattern t of
        Some g \<Rightarrow> Some (lower (rstrip_chars ''.,;)'' g))
      | None \<Rightarrow> doi_loop patterns t)"

definition extract_doi :: "citation \<Rightarrow> string option" where
  "extract_doi self = doi_loop doi_patterns (text self)"

definition not_dot :: regex where
  "not_dot = Cls (\<lambda>c. c \<noteq> CHR ''.'')"

definition title_patterns :: "regex list" where
  "title_patterns =
     [seqs [Alt (chr CHR ''.'') (chr CHR '')''), plus (Cls is_space), Group (lazy_plus not_dot),
            chr CHR ''.'', plus (Cls is_space), Cls is_upper_ascii, plus not_dot,
            Alt (lit ''Journal'') (Alt (lit ''Conference'') (lit ''Proceedings''))],
      seqs [Alt (chr CHR ''.'') (chr CHR '')''), plus (Cls is_space), Group (lazy_plus not_dot),
            plus (Cls is_space), chr CHR ''('', rep4 (Cls is_digit), chr CHR '')'']]"

fun title_loop :: "regex list \<Rightarrow> string \<Rightarrow> string option" where
  "title_loop [] t = None"
| "title_loop (pattern # patterns) t =
     (case re_search pattern t of
        Some g \<Rightarrow> (let title = strip g in
                    if length title > 10 then Some title else title_loop patterns t)
      | None \<Rightarrow> title_loop patterns t)"

definition extract_title :: "citation \<Rightarrow> string option" where
  "extract_title self =
     (case re_search (seqs [chr (CHR 0x22), Group (plus (Cls (\<lambda>c. c \<noteq> CHR 0x22))), chr (CHR 0x22)])
             (text self) of
        Some g \<Rightarrow> Some (strip g)
      | None \<Rightarrow> title_loop title_patterns (text self))"

definition generate_fingerprint :: "citation \<Rightarrow> string" where
  "generate_fingerprint self =
     (if truthy_str (doi self) then md5 (''doi:'' @ the (doi self))
      else md5 (normalized_text self @ '':'' @
                (if truthy_int (year self) then str_int (the (year self)) else ''no_year'')))"

definition post_init :: "citation \<Rightarrow> citation" where
  "post_init self0 =
     (let self1 = (if year self0 = None then self0\<lparr>year := extract_year self0\<rparr> else self0);
          self2 = self1\<lparr>normalized_text := normalize_text self1\<rparr>;
          self3 = self2\<lparr>doi := extract_doi self2\<rparr>;
          self4 = self3\<lparr>title := extract_title self3\<rparr>
      in self4\<lparr>fingerprint := generate_fingerprint self4\<rparr>)"

text \<open>
  The constructor, with the dataclass's argument order: the generated \<open>__init__\<close> stores
  its arguments and the defaults, then calls \<open>__post_init__\<close>. The two fields without a
  default start empty; \<open>__post_init__\<close> assigns each before anything reads it.
\<close>

definition init_fields :: "string \<Rightarrow> string \<Rightarrow> int option \<Rightarrow> string \<Rightarrow> citation" where
  "init_fields t a y c =
     \<lparr>text = t, author = a, year = y, category = c, normalized_text = [],
      fingerprint = [], doi = None, title = None\<rparr>"

definition Citation :: "string \<Rightarrow> string \<Rightarrow> int option \<Rightarrow> string \<Rightarrow> citation" where
  "Citation t a y c = post_init (init_fields t a y c)"

definition normalize_string :: "string \<Rightarrow> string" where
  "normalize_string t = strip (re_sub (Cls (\<lambda>c. \<not> is_word c \<and> \<not> is_space c)) [] (lower t))"

section \<open>difflib.SequenceMatcher\<close>

text \<open>
  \<open>SequenceMatcher(None, a, b).ratio()\<close> of the standard library, with no junk function and
  \<open>autojunk\<close> at its default: when \<open>b\<close> has 200 or more elements, those occurring more
  than \<open>len(b) // 100 + 1\<close> times are left out of the index \<open>b2j\<close>. The float that
  Python computes is modelled by the real number \<open>2 * matches / length\<close>.
\<close>

definition bpopular :: "string \<Rightarrow> char list" where
  "bpopular b = (let n = length b in
     if n \<ge> 200 then filter (\<lambda>c. count_list b c > n div 100 + 1) (remdups b) else [])"

definition b2j_get :: "string \<Rightarrow> char \<Rightarrow> nat list" where
  "b2j_get b c = (if c \<in> set (bpopular b) then [] else filter (\<lambda>j. b ! j = c) [0..<length b])"

definition j2lenget :: "(nat \<times> nat) list \<Rightarrow> nat \<Rightarrow> nat" where
  "j2lenget j2len j = (if j = 0 then 0 else case map_of j2len (j - 1) of None \<Rightarrow> 0 | Some v \<Rightarrow> v)"

fun flm_inner :: "nat list \<Rightarrow> nat \<Rightarrow> nat \<Rightarrow> nat \<Rightarrow> (nat \<times> nat) list \<Rightarrow>
    (nat \<times> nat) list \<times> (nat \<times> nat \<times> nat) \<Rightarrow> (nat \<times> nat) list \<times> (nat \<times> nat \<times> nat)" where
  "flm_inner [] i blo bhi j2len acc = acc"
| "flm_inner (j # js) i blo bhi j2len (newj2len, (besti, bestj, bestsize)) =
     (if j < blo then flm_inner js i blo bhi j2len (newj2len, (besti, bestj, bestsize))
      else if j \<ge> bhi then (newj2len, (besti, bestj, bestsize))
      else (let k = j2lenget j2len j + 1 in
        flm_inner js i blo bhi j2len ((j, k) # newj2len,
          (if k > bestsize then (i + 1 - k, j + 1 - k, k) else (besti, bestj, bestsize)))))"

fun flm_outer :: "string \<Rightarrow> string \<Rightarrow> nat list \<Rightarrow> nat \<Rightarrow> nat \<Rightarrow>
    (nat \<times> nat) list \<times> (nat \<times> nat \<times> nat) \<Rightarrow> (nat \<times> nat \<times> nat)" where
  "flm_outer a b [] blo bhi (j2len, best) = best"
| "flm_outer a b (i # is) blo bhi (j2len, best) =
     flm_outer a b is blo bhi (flm_inner (b2j_get b (a ! i)) i blo bhi j2len ([], best))"

function extend_left :: "string \<Rightarrow> string \<Rightarrow> nat \<Rightarrow> nat \<Rightarrow> nat \<times> nat \<times> nat \<Rightarrow> nat \<times> nat \<times> nat" where
  "extend_left a b alo blo (besti, bestj, bestsize) =
     (if besti > alo \<and> bestj > blo \<and> a ! (besti - 1) = b ! (bestj - 1)
      then extend_left a b alo blo (besti - 1, bestj - 1, bestsize + 1)
      else (besti, bestj, bestsize))"
  by pat_completeness auto
termination by (relation "measure (\<lambda>(a, b, alo, blo, besti, bestj, bestsize). besti)") auto

function extend_right :: "string \<Rightarrow> string \<Rightarrow> nat \<Rightarrow> nat \<Rightarrow> nat \<times> nat \<times> nat \<Rightarrow> nat \<times> nat \<times> nat" where
  "extend_right a b ahi bhi (besti, bestj, bestsize) =
     (if besti + bestsize < ahi \<and> bestj + bestsize < bhi \<and> a ! (besti + bestsize) = b ! (bestj + bestsize)
      then extend_right a b ahi bhi (besti, bestj, bestsize + 1)
      else (besti, bestj, bestsize))"
  by pat_completeness auto
termination by (relation "measure (\<lambda>(a, b, ahi, bhi, besti, bestj, bestsize). ahi - (besti + bestsize))") auto

definition find_longest_match :: "string \<Rightarrow> string \<Rightarrow> nat \<Rightarrow> nat \<Rightarrow> nat \<Rightarrow> nat \<Rightarrow> nat \<times> nat \<times> nat" where
  "find_longest_match a b alo ahi blo bhi =
     extend_right a b ahi bhi (extend_left a b alo blo
       (flm_outer a b [alo..<ahi] blo bhi ([], (alo, blo, 0))))"


text \<open>
  The block that \<open>find_longest_match\<close> returns lies inside the window it was given, so
  the windows that \<open>get_matching_blocks\<close> still has to look at shrink.
\<close>

definition flm_inv :: "nat \<Rightarrow> nat \<Rightarrow> nat \<times> nat \<times> nat \<Rightarrow> bool" where
  "flm_inv alo ahi m = (case m of (i, j, k) \<Rightarrow> alo \<le> i \<and> (if k = 0 then i = alo else i + k \<le> ahi))"

lemma j2lenget_le:
  assumes "\<forall>(j, v) \<in> set j2len. v \<le> B"
  shows "j2lenget j2len j \<le> B"
proof (cases "j = 0")
  case True
  then show ?thesis by (simp add: j2lenget_def)
next
  case False
  show ?thesis
  proof (cases "map_of j2len (j - 1)")
    case None
    with False show ?thesis by (simp add: j2lenget_def)
  next
    case (Some v)
    then have "(j - 1, v) \<in> set j2len" by (rule map_of_SomeD)
    with assms have "v \<le> B" by auto
    with False Some show ?thesis by (simp add: j2lenget_def)
  qed
qed

lemma flm_inner_inv:
  assumes "\<forall>(j, v) \<in> set j2len. v \<le> B" and "B + alo \<le> i" and "i < ahi"
    and "\<forall>(j, v) \<in> set (fst acc). v \<le> B + 1" and "flm_inv alo ahi (snd acc)"
  shows "(\<forall>(j, v) \<in> set (fst (flm_inner js i blo bhi j2len acc)). v \<le> B + 1)
       \<and> flm_inv alo ahi (snd (flm_inner js i blo bhi j2len acc))"
  using assms(4,5)
proof (induction js arbitrary: acc)
  case Nil
  then show ?case by simp
next
  case (Cons j js)
  obtain newj besti bestj bestsize where acc: "acc = (newj, (besti, bestj, bestsize))"
    by (metis prod.collapse)
  have k: "j2lenget j2len j \<le> B" using assms(1) by (rule j2lenget_le)
  show ?case
  proof (cases "j < blo")
    case True
    then have "flm_inner (j # js) i blo bhi j2len acc = flm_inner js i blo bhi j2len acc"
      using acc by simp
    then show ?thesis using Cons.IH[OF Cons.prems] by simp
  next
    case nlo: False
    show ?thesis
    proof (cases "j \<ge> bhi")
      case True
      then show ?thesis using Cons.prems acc nlo by simp
    next
      case False
      let ?k = "j2lenget j2len j + 1"
      let ?acc = "((j, ?k) # newj, (if ?k > bestsize then (i + 1 - ?k, j + 1 - ?k, ?k) else (besti, bestj, bestsize)))"
      have 1: "\<forall>(j, v) \<in> set (fst ?acc). v \<le> B + 1"
        using Cons.prems(1) acc k by auto
      have 2: "flm_inv alo ahi (snd ?acc)"
        using Cons.prems(2) acc k assms(2,3) by (auto simp: flm_inv_def)
      have "flm_inner (j # js) i blo bhi j2len acc = flm_inner js i blo bhi j2len ?acc"
        using acc nlo False by (simp add: Let_def)
      then show ?thesis using Cons.IH[OF 1 2] by simp
    qed
  qed
qed

lemma flm_outer_inv:
  assumes "sorted_wrt (<) is" and "\<forall>x \<in> set is. alo \<le> x \<and> x < ahi"
    and "\<forall>(j, v) \<in> set j2len. \<forall>x \<in> set is. v + alo \<le> x" and "flm_inv alo ahi best"
  shows "flm_inv alo ahi (flm_outer a b is blo bhi (j2len, best))"
  using assms
proof (induction "is" arbitrary: j2len best)
  case Nil
  then show ?case by simp
next
  case (Cons i "is")
  let ?r = "flm_inner (b2j_get b (a ! i)) i blo bhi j2len ([], best)"
  have a1: "\<forall>(j, v) \<in> set j2len. v \<le> i - alo" using Cons.prems(3) by fastforce
  have a2: "(i - alo) + alo \<le> i" using Cons.prems(2) by simp
  have a3: "i < ahi" using Cons.prems(2) by simp
  have r: "(\<forall>(j, v) \<in> set (fst ?r). v \<le> (i - alo) + 1) \<and> flm_inv alo ahi (snd ?r)"
    by (rule flm_inner_inv[OF a1 a2 a3]) (use Cons.prems(4) in simp_all)
  have gt: "\<forall>x \<in> set is. i < x" using Cons.prems(1) by simp
  have b3: "\<forall>(j, v) \<in> set (fst ?r). \<forall>x \<in> set is. v + alo \<le> x"
  proof (clarify)
    fix j v x assume "(j, v) \<in> set (fst ?r)" "x \<in> set is"
    then have "v \<le> (i - alo) + 1" "i < x" using r gt by auto
    moreover have "alo \<le> i" using Cons.prems(2) by simp
    ultimately show "v + alo \<le> x" by simp
  qed
  have "flm_inv alo ahi (flm_outer a b is blo bhi (fst ?r, snd ?r))"
    by (rule Cons.IH) (use Cons.prems r b3 in auto)
  then show ?case by simp
qed

declare extend_left.simps [simp del] extend_right.simps [simp del]

lemma extend_left_inv: "flm_inv alo ahi m \<Longrightarrow> flm_inv alo ahi (extend_left a b alo blo m)"
proof (induction a b alo blo m rule: extend_left.induct)
  case (1 a b alo blo besti bestj bestsize)
  show ?case
  proof (cases "besti > alo \<and> bestj > blo \<and> a ! (besti - 1) = b ! (bestj - 1)")
    case True
    have "flm_inv alo ahi (besti - 1, bestj - 1, bestsize + 1)"
      using True "1.prems" by (auto simp: flm_inv_def split: if_splits)
    then show ?thesis using "1.IH" True by (subst extend_left.simps) simp
  next
    case False
    then show ?thesis using "1.prems" by (subst extend_left.simps) auto
  qed
qed

lemma extend_right_inv: "flm_inv alo ahi m \<Longrightarrow> flm_inv alo ahi (extend_right a b ahi bhi m)"
proof (induction a b ahi bhi m rule: extend_right.induct)
  case (1 a b ahi bhi besti bestj bestsize)
  show ?case
  proof (cases "besti + bestsize < ahi \<and> bestj + bestsize < bhi \<and> a ! (besti + bestsize) = b ! (bestj + bestsize)")
    case True
    have "flm_inv alo ahi (besti, bestj, bestsize + 1)"
      using True "1.prems" by (auto simp: flm_inv_def)
    then show ?thesis using "1.IH" True by (subst extend_right.simps) simp
  next
    case False
    then show ?thesis using "1.prems" by (subst extend_right.simps) auto
  qed
qed

lemma find_longest_match_inv: "flm_inv alo ahi (find_longest_match a b alo ahi blo bhi)"
  unfolding find_longest_match_def
  by (intro extend_right_inv extend_left_inv flm_outer_inv) (auto simp: flm_inv_def)

lemma flm_bounds:
  assumes "find_longest_match a b alo ahi blo bhi = (i, j, k)" and "k \<noteq> 0"
  shows "alo \<le> i \<and> i + k \<le> ahi"
proof -
  have "flm_inv alo ahi (i, j, k)"
    using find_longest_match_inv[of alo ahi a b blo bhi] unfolding assms(1) .
  with assms(2) show ?thesis by (simp add: flm_inv_def)
qed

text \<open>
  \<open>get_matching_blocks\<close> takes windows from a queue until it is empty; the recursion below
  visits the same windows. \<open>ratio\<close> uses only the sum of the block sizes, which neither
  the order of the blocks nor the merging of adjacent ones changes.
\<close>

function matching_blocks :: "string \<Rightarrow> string \<Rightarrow> nat \<Rightarrow> nat \<Rightarrow> nat \<Rightarrow> nat \<Rightarrow> (nat \<times> nat \<times> nat) list" where
  "matching_blocks a b alo ahi blo bhi =
     (case find_longest_match a b alo ahi blo bhi of (i, j, k) \<Rightarrow>
        if k = 0 then []
        else (i, j, k)
           # (if i + k < ahi \<and> j + k < bhi then matching_blocks a b (i + k) ahi (j + k) bhi else [])
           @ (if alo < i \<and> blo < j then matching_blocks a b alo i blo j else []))"
  by pat_completeness auto
termination
  apply (relation "measure (\<lambda>(a, b, alo, ahi, blo, bhi). ahi - alo)")
    apply simp
  subgoal for a b alo ahi blo bhi i y j k
    using flm_bounds[of a b alo ahi blo bhi i j k] by (simp, (arith)?)
  subgoal for a b alo ahi blo bhi i y j k
    using flm_bounds[of a b alo ahi blo bhi i j k] by (simp, (arith)?)
  done

definition ratio :: "string \<Rightarrow> string \<Rightarrow> real" where
  "ratio a b = (let matches = sum_list (map (\<lambda>(i, j, k). k) (matching_blocks a b 0 (length a) 0 (length b)));
                    len = length a + length b
                in if len \<noteq> 0 then 2 * real matches / real len else 1)"

section \<open>Similarity\<close>

definition similarity_score :: "citation \<Rightarrow> citation \<Rightarrow> real" where
  "similarity_score self other =
     (if truthy_str (doi self) \<and> truthy_str (doi other) \<and> doi self = doi other then 1
      else if truthy_str (title self) \<and> truthy_str (title other) \<and> year self = year other
              \<and> normalize_string (the (title self)) = normalize_string (the (title other))
      then 95 / 100
      else let similarity = ratio (normalized_text self) (normalized_text other) in
           if truthy_int (year self) \<and> truthy_int (year other) \<and> year self = year other
           then min 1 (similarity + 1 / 10) else similarity)"

definition is_duplicate_of :: "citation \<Rightarrow> citation \<Rightarrow> real \<Rightarrow> bool" where
  "is_duplicate_of self other threshold = (similarity_score self other \<ge> threshold)"

section \<open>AnalysisConfig and CitationAnalyzer\<close>

text \<open>
  The fields of \<open>AnalysisConfig\<close> that the duplicate detection reads. The dataclass has no
  \<open>__post_init__\<close>: every value of the field types is a configuration. The analyzer's
  dictionaries keep insertion order and are association lists.
\<close>

record analysis_config =
  enable_duplicate_detection :: bool
  similarity_threshold :: real
  duplicate_strategy :: string
  report_duplicates :: bool

type_synonym ledger = "(citation \<times> citation) list"

record analyzer =
  config :: analysis_config
  citations :: "citation list"
  duplicates_removed :: ledger
  organized_data :: "(string \<times> (int \<times> citation list) list) list"

definition CitationAnalyzer :: "analysis_config \<Rightarrow> analyzer" where
  "CitationAnalyzer cfg = \<lparr>config = cfg, citations = [], duplicates_removed = [], organized_data = []\<rparr>"

text \<open>\<open>d[k] = f(d[k])\<close> on a \<open>defaultdict\<close> whose missing values are \<open>dflt\<close>.\<close>

fun dict_upd :: "'k \<Rightarrow> 'v \<Rightarrow> ('v \<Rightarrow> 'v) \<Rightarrow> ('k \<times> 'v) list \<Rightarrow> ('k \<times> 'v) list" where
  "dict_upd k dflt f [] = [(k, f dflt)]"
| "dict_upd k dflt f ((k', v) # rest) =
     (if k' = k then (k', f v) # rest else (k', v) # dict_upd k dflt f rest)"

text \<open>The faculty records of the input file: the keys \<open>name\<close> and \<open>citations\<close> may be absent.\<close>

record faculty =
  fac_name :: "string option"
  fac_citations :: "(string \<times> string list) list option"

definition parse_faculty :: "citation list \<Rightarrow> faculty \<Rightarrow> citation list" where
  "parse_faculty cs fac =
     (case fac_citations fac of
        None \<Rightarrow> cs
      | Some cats \<Rightarrow>
          (let faculty_name = (case fac_name fac of None \<Rightarrow> ''Unknown'' | Some n \<Rightarrow> n)
           in foldl (\<lambda>cs (category, citation_texts).
                 foldl (\<lambda>cs t. cs @ [Citation t faculty_name None category]) cs citation_texts) cs cats))"

definition parse_citations :: "analyzer \<Rightarrow> faculty list \<Rightarrow> analyzer" where
  "parse_citations self faculty_data =
     self\<lparr>citations := foldl parse_faculty (citations self) faculty_data\<rparr>"

definition fingerprint_groups :: "citation list \<Rightarrow> (string \<times> citation list) list" where
  "fingerprint_groups cs =
     foldl (\<lambda>groups citation. dict_upd (fingerprint citation) [] (\<lambda>g. g @ [citation]) groups) [] cs"

text \<open>\<open>max(group, key=lambda c: len(c.text))\<close> of a non-empty list: the first longest element.\<close>

fun max_text :: "citation \<Rightarrow> citation list \<Rightarrow> citation" where
  "max_text best [] = best"
| "max_text best (c # cs) = max_text (if length (text c) > length (text best) then c else best) cs"

fun resolve_duplicate_group :: "analysis_config \<Rightarrow> citation list \<Rightarrow> citation list \<times> ledger" where
  "resolve_duplicate_group cfg [] = ([], [])"
| "resolve_duplicate_group cfg [c] = ([c], [])"
| "resolve_duplicate_group cfg (c # d # ds) =
     (let group = c # d # ds in
      if duplicate_strategy cfg = ''keep_first'' then
        ([c], map (\<lambda>dup. (c, dup)) (d # ds))
      else if duplicate_strategy cfg = ''keep_longest'' then
        (let longest = max_text c (d # ds) in
         ([longest], map (\<lambda>dup. (longest, dup)) (filter (\<lambda>dup. dup \<noteq> longest) group)))
      else if duplicate_strategy cfg = ''keep_most_complete'' then
        (let with_doi = filter (\<lambda>c. truthy_str (doi c)) group;
             best = (case with_doi of w # ws \<Rightarrow> max_text w ws | [] \<Rightarrow> max_text c (d # ds))
         in ([best], map (\<lambda>dup. (best, dup)) (filter (\<lambda>dup. dup \<noteq> best) group)))
      else ([], []))"

definition should_replace :: "analysis_config \<Rightarrow> citation \<Rightarrow> citation \<Rightarrow> bool" where
  "should_replace cfg existing new =
     (if duplicate_strategy cfg = ''keep_first'' then False
      else if duplicate_strategy cfg = ''keep_longest'' then length (text new) > length (text existing)
      else if duplicate_strategy cfg = ''keep_most_complete'' then
        (if truthy_str (doi new) \<and> \<not> truthy_str (doi existing) then True
         else if truthy_str (doi existing) \<and> \<not> truthy_str (doi new) then False
         else length (text new) > length (text existing))
      else False)"

text \<open>
  One round of the outer loop of \<open>_remove_similar_duplicates\<close>: the inner loop stops at the
  first accepted citation that the candidate duplicates; \<open>list.remove\<close> deletes the first
  element equal to its argument.
\<close>

definition similar_step :: "analysis_config \<Rightarrow> citation list \<times> ledger \<Rightarrow> citation
    \<Rightarrow> citation list \<times> ledger" where
  "similar_step cfg st citation = (case st of (unique_citations, removed) \<Rightarrow>
     (case find (\<lambda>unique_citation. is_duplicate_of citation unique_citation (similarity_threshold cfg))
             unique_citations of
        None \<Rightarrow> (unique_citations @ [citation], removed)
      | Some unique_citation \<Rightarrow>
          if should_replace cfg unique_citation citation
          then (remove1 unique_citation unique_citations @ [citation],
                removed @ [(citation, unique_citation)])
          else (unique_citations, removed @ [(unique_citation, citation)])))"

definition remove_similar_duplicates :: "analysis_config \<Rightarrow> citation list \<Rightarrow> ledger
    \<Rightarrow> citation list \<times> ledger" where
  "remove_similar_duplicates cfg cs removed = foldl (similar_step cfg) ([], removed) cs"

text \<open>\<open>sorted(items, reverse=True)\<close> on the items of a dictionary with integer keys.\<close>

definition sorted_reverse :: "(int \<times> 'v) list \<Rightarrow> (int \<times> 'v) list" where
  "sorted_reverse items = rev (sort_key fst (rev items))"

definition organize_add :: "(string \<times> (int \<times> citation list) list) list \<Rightarrow> citation
    \<Rightarrow> (string \<times> (int \<times> citation list) list) list" where
  "organize_add data citation =
     (if truthy_int (year citation)
      then dict_upd (category citation) []
             (dict_upd (the (year citation)) [] (\<lambda>l. l @ [citation])) data
      else data)"

definition organize_citations :: "citation list \<Rightarrow> (string \<times> (int \<times> citation list) list) list" where
  "organize_citations cs =
     map (\<lambda>(category, years). (category, sorted_reverse years)) (foldl organize_add [] cs)"

definition group_step :: "analysis_config \<Rightarrow> citation list \<times> ledger \<Rightarrow> string \<times> citation list
    \<Rightarrow> citation list \<times> ledger" where
  "group_step cfg st entry = (case st of (unique_citations, removed) \<Rightarrow>
     (case entry of (fp, grp) \<Rightarrow>
        if length grp = 1 then (unique_citations @ grp, removed)
        else (case resolve_duplicate_group cfg grp of (kept, removed_pairs) \<Rightarrow>
                (unique_citations @ kept, removed @ removed_pairs))))"

definition resolve_groups :: "analysis_config \<Rightarrow> citation list \<Rightarrow> ledger \<Rightarrow> citation list \<times> ledger" where
  "resolve_groups cfg cs removed = foldl (group_step cfg) ([], removed) (fingerprint_groups cs)"

text \<open>
  \<open>_remove_duplicates\<close>; the report file that it writes at the end is not modelled.
\<close>

definition remove_duplicates :: "analyzer \<Rightarrow> analyzer" where
  "remove_duplicates self =
     (case resolve_groups (config self) (citations self) (duplicates_removed self) of
        (unique_citations, removed) \<Rightarrow>
          (case (if similarity_threshold (config self) < 1
                 then remove_similar_duplicates (config self) unique_citations removed
                 else (unique_citations, removed)) of
             (unique_citations', removed') \<Rightarrow>
               self\<lparr>citations := unique_citations', duplicates_removed := removed',
                     organized_data := organize_citations unique_citations'\<rparr>))"

text \<open>
  \<open>load_data\<close>: the input file is missing, is not JSON, or holds the faculty records. The
  two failures are raised to the caller.
\<close>

datatype input_file = Missing | Malformed | Parsed "faculty list"

datatype error = FileNotFoundError | JSONDecodeError

definition load_data :: "analyzer \<Rightarrow> input_file \<Rightarrow> error + analyzer" where
  "load_data self f =
     (case f of
        Missing \<Rightarrow> Inl FileNotFoundError
      | Malformed \<Rightarrow> Inl JSONDecodeError
      | Parsed faculty_data \<Rightarrow>
          (let self' = parse_citations self faculty_data
           in Inr (if enable_duplicate_detection (config self') then remove_duplicates self'
                   else self')))"

section \<open>The derived fields of a citation\<close>

declare search_from.simps [simp del] sub_from.simps [simp del] findall_from.simps [simp del]

lemma extract_year_text: "text s1 = text s2 \<Longrightarrow> extract_year s1 = extract_year s2"
  by (simp add: extract_year_def)

lemma normalize_text_text: "text s1 = text s2 \<Longrightarrow> normalize_text s1 = normalize_text s2"
  by (simp add: normalize_text_def)

lemma extract_doi_text: "text s1 = text s2 \<Longrightarrow> extract_doi s1 = extract_doi s2"
  by (simp add: extract_doi_def)

lemma extract_title_text: "text s1 = text s2 \<Longrightarrow> extract_title s1 = extract_title s2"
  by (simp add: extract_title_def cong: option.case_cong)

lemma Citation_text: "text (Citation t a y c) = t"
  by (simp add: Citation_def post_init_def init_fields_def Let_def)

lemma Citation_author: "author (Citation t a y c) = a"
  by (simp add: Citation_def post_init_def init_fields_def Let_def)

lemma Citation_category: "category (Citation t a y c) = c"
  by (simp add: Citation_def post_init_def init_fields_def Let_def)

lemma Citation_year:
  "year (Citation t a y c) = (if y = None then extract_year (init_fields t a y c) else y)"
  by (simp add: Citation_def post_init_def init_fields_def Let_def)

lemma Citation_normalized_text:
  "normalized_text (Citation t a y c) = normalize_text (init_fields t a y c)"
  by (simp add: Citation_def post_init_def init_fields_def Let_def normalize_text_def)

lemma Citation_doi: "doi (Citation t a y c) = extract_doi (init_fields t a y c)"
  by (simp add: Citation_def post_init_def init_fields_def Let_def extract_doi_def)

lemma Citation_title: "title (Citation t a y c) = extract_title (init_fields t a y c)"
  by (simp add: Citation_def post_init_def init_fields_def Let_def extract_title_def
        cong: option.case_cong)

lemma Citation_fingerprint:
  "fingerprint (Citation t a y c) = generate_fingerprint (Citation t a y c)"
  by (simp add: Citation_def post_init_def Let_def generate_fingerprint_def)

lemma init_fields_text: "text (init_fields t a y c) = t"
  by (simp add: init_fields_def)

text \<open>
  C7. \<open>normalized_text\<close> and \<open>fingerprint\<close> are functions of the text and the year argument
  alone: two citations constructed from the same text and year have the same normalized text
  and the same fingerprint, whatever their authors and categories.
\<close>

theorem identity_fields_deterministic:
  "normalized_text (Citation t a1 y c1) = normalized_text (Citation t a2 y c2)
   \<and> fingerprint (Citation t a1 y c1) = fingerprint (Citation t a2 y c2)"
proof -
  have tx: "text (init_fields t a1 y c1) = text (init_fields t a2 y c2)"
    by (simp add: init_fields_text)
  have n: "normalized_text (Citation t a1 y c1) = normalized_text (Citation t a2 y c2)"
    unfolding Citation_normalized_text by (rule normalize_text_text[OF tx])
  have d: "doi (Citation t a1 y c1) = doi (Citation t a2 y c2)"
    unfolding Citation_doi by (rule extract_doi_text[OF tx])
  have yr: "year (Citation t a1 y c1) = year (Citation t a2 y c2)"
    unfolding Citation_year using extract_year_text[OF tx] by (cases y) simp_all
  have "generate_fingerprint (Citation t a1 y c1) = generate_fingerprint (Citation t a2 y c2)"
    unfolding generate_fingerprint_def using n d yr by simp
  then have "fingerprint (Citation t a1 y c1) = fingerprint (Citation t a2 y c2)"
    by (simp only: Citation_fingerprint[symmetric])
  with n show ?thesis by simp
qed

section \<open>Similarity is not symmetric\<close>

text \<open>Three short citations and the sequence-matcher ratios of their normalized texts.\<close>

lemma tide_parts:
  "normalize_text (init_fields ''tide'' ''A'' None ''x'') = ''tide''"
  "extract_doi (init_fields ''tide'' ''A'' None ''x'') = None"
  "extract_title (init_fields ''tide'' ''A'' None ''x'') = None"
  "extract_year (init_fields ''tide'' ''A'' None ''x'') = None"
  by code_simp+

lemma diet_parts:
  "normalize_text (init_fields ''diet'' ''A'' None ''x'') = ''diet''"
  "extract_doi (init_fields ''diet'' ''A'' None ''x'') = None"
  "extract_title (init_fields ''diet'' ''A'' None ''x'') = None"
  "extract_year (init_fields ''diet'' ''A'' None ''x'') = None"
  by code_simp+


lemma ratio_tide_diet: "ratio ''tide'' ''diet'' = 1 / 4" "ratio ''diet'' ''tide'' = 1 / 2"
  "ratio ''tide'' ''tied'' = 3 / 4" "ratio ''tied'' ''tide'' = 3 / 4"
  by code_simp+

lemma score_tide_diet:
  "similarity_score (Citation ''tide'' ''A'' None ''x'') (Citation ''diet'' ''A'' None ''x'') = 1 / 4"
  "similarity_score (Citation ''diet'' ''A'' None ''x'') (Citation ''tide'' ''A'' None ''x'') = 1 / 2"
  by (simp_all add: similarity_score_def Citation_doi Citation_title Citation_year
        Citation_normalized_text tide_parts diet_parts truthy_str_def truthy_int_def ratio_tide_diet)




section \<open>The duplicate test\<close>




section \<open>The near-duplicate pass under keep_first\<close>

lemma similar_step_no_replace:
  assumes "\<And>existing new. \<not> should_replace cfg existing new"
  shows "fst (similar_step cfg (us, led) c)
         = (if find (\<lambda>u. is_duplicate_of c u (similarity_threshold cfg)) us = None
            then us @ [c] else us)"
  using assms
  by (cases "find (\<lambda>u. is_duplicate_of c u (similarity_threshold cfg)) us")
     (simp_all add: similar_step_def)

lemma foldl_similar_step_subseq:
  assumes nr: "\<And>existing new. \<not> should_replace cfg existing new"
  shows "subseq us xs \<Longrightarrow> subseq (fst (foldl (similar_step cfg) (us, led) cs)) (xs @ cs)"
proof (induction cs arbitrary: us led xs)
  case Nil
  then show ?case by simp
next
  case (Cons c cs)
  obtain us' led' where st: "similar_step cfg (us, led) c = (us', led')"
    by (cases "similar_step cfg (us, led) c")
  have us': "us' = (if find (\<lambda>u. is_duplicate_of c u (similarity_threshold cfg)) us = None
               then us @ [c] else us)"
    using similar_step_no_replace[OF nr, of us led c] st by simp
  have "subseq us' (xs @ [c])"
  proof (cases "find (\<lambda>u. is_duplicate_of c u (similarity_threshold cfg)) us = None")
    case True
    then have e: "us' = us @ [c]" using us' by simp
    show ?thesis unfolding e by (rule list_emb_append_mono[OF Cons.prems]) simp
  next
    case False
    then have e: "us' = us" using us' by simp
    show ?thesis unfolding e by (rule subseq_rev_drop_many[OF Cons.prems])
  qed
  from Cons.IH[OF this, of led'] st show ?case by simp
qed

lemma keep_first_never_replaces:
  "duplicate_strategy cfg = ''keep_first'' \<Longrightarrow> \<not> should_replace cfg existing new"
  by (simp add: should_replace_def)

text \<open>
  C10. Under \<open>keep_first\<close> the near-duplicate pass never replaces an accepted citation, and
  the list it returns is a subsequence of the list it was given: its elements are input
  elements, in the input order.
\<close>

theorem keep_first_pass_is_subsequence:
  assumes "duplicate_strategy cfg = ''keep_first''"
  shows "\<not> should_replace cfg existing new
       \<and> subseq (fst (remove_similar_duplicates cfg cs led)) cs
       \<and> set (fst (remove_similar_duplicates cfg cs led)) \<subseteq> set cs"
proof -
  have s: "subseq (fst (remove_similar_duplicates cfg cs led)) cs"
    unfolding remove_similar_duplicates_def
    using foldl_similar_step_subseq[OF keep_first_never_replaces[OF assms], of "[]" "[]" led cs]
    by simp
  have "set (fst (remove_similar_duplicates cfg cs led)) \<subseteq> set cs"
  proof
    fix x assume "x \<in> set (fst (remove_similar_duplicates cfg cs led))"
    from list_emb_set[OF s this] show "x \<in> set cs" by auto
  qed
  with s keep_first_never_replaces[OF assms] show ?thesis by simp
qed

theorem keep_first_pass_is_subsequence_witness:
  "duplicate_strategy \<lparr>enable_duplicate_detection = True, similarity_threshold = 1 / 2,
      duplicate_strategy = ''keep_first'', report_duplicates = True\<rparr> = ''keep_first''
   \<and> fst (remove_similar_duplicates
        \<lparr>enable_duplicate_detection = True, similarity_threshold = 1 / 2,
          duplicate_strategy = ''keep_first'', report_duplicates = True\<rparr>
        [Citation ''tide'' ''A'' None ''x'', Citation ''diet'' ''A'' None ''x''] [])
      = [Citation ''tide'' ''A'' None ''x'']
   \<and> subseq (fst (remove_similar_duplicates
        \<lparr>enable_duplicate_detection = True, similarity_threshold = 1 / 2,
          duplicate_strategy = ''keep_first'', report_duplicates = True\<rparr>
        [Citation ''tide'' ''A'' None ''x'', Citation ''diet'' ''A'' None ''x''] []))
      [Citation ''tide'' ''A'' None ''x'', Citation ''diet'' ''A'' None ''x'']"
proof -
  have v: "fst (remove_similar_duplicates
        \<lparr>enable_duplicate_detection = True, similarity_threshold = 1 / 2,
          duplicate_strategy = ''keep_first'', report_duplicates = True\<rparr>
        [Citation ''tide'' ''A'' None ''x'', Citation ''diet'' ''A'' None ''x''] [])
      = [Citation ''tide'' ''A'' None ''x'']"
    by (simp add: remove_similar_duplicates_def similar_step_def is_duplicate_of_def
          score_tide_diet should_replace_def)
  show ?thesis
    using keep_first_pass_is_subsequence[of
        "\<lparr>enable_duplicate_detection = True, similarity_threshold = 1 / 2,
          duplicate_strategy = ''keep_first'', report_duplicates = True\<rparr>"
        "Citation ''tide'' ''A'' None ''x''" "Citation ''diet'' ''A'' None ''x''"
        "[Citation ''tide'' ''A'' None ''x'', Citation ''diet'' ''A'' None ''x'']" "[]"] v
    by simp
qed

section \<open>The strategies\<close>

lemma max_text_mem: "max_text b cs \<in> set (b # cs)"
proof (induction cs arbitrary: b)
  case Nil
  show ?case by simp
next
  case (Cons c cs)
  have "max_text (if length (text c) > length (text b) then c else b) cs
          \<in> set ((if length (text c) > length (text b) then c else b) # cs)"
    by (rule Cons.IH)
  then show ?case by (auto split: if_splits)
qed

lemma max_text_first: "length (text b) \<le> length (text (max_text b cs))"
proof (induction cs arbitrary: b)
  case Nil
  show ?case by simp
next
  case (Cons c cs)
  have "length (text (if length (text c) > length (text b) then c else b))
          \<le> length (text (max_text (if length (text c) > length (text b) then c else b) cs))"
    by (rule Cons.IH)
  then show ?case by (simp split: if_splits)
qed

lemma max_text_ge: "x \<in> set (b # cs) \<Longrightarrow> length (text x) \<le> length (text (max_text b cs))"
proof (induction cs arbitrary: b)
  case Nil
  then show ?case by simp
next
  case (Cons c cs)
  let ?b = "if length (text c) > length (text b) then c else b"
  show ?case
  proof (cases "x \<in> set cs")
    case True
    then have "x \<in> set (?b # cs)" by simp
    from Cons.IH[OF this] show ?thesis by simp
  next
    case False
    then have "x = b \<or> x = c" using Cons.prems by auto
    then have "length (text x) \<le> length (text ?b)" by auto
    also have "\<dots> \<le> length (text (max_text ?b cs))" by (rule max_text_first)
    finally show ?thesis by simp
  qed
qed

lemma resolve_most_complete:
  assumes "duplicate_strategy cfg = ''keep_most_complete''"
  shows "fst (resolve_duplicate_group cfg (c # d # ds))
         = [case filter (\<lambda>c. truthy_str (doi c)) (c # d # ds) of
              w # ws \<Rightarrow> max_text w ws | [] \<Rightarrow> max_text c (d # ds)]"
  using assms by (simp add: Let_def)

lemma similar_step_found:
  assumes "find (\<lambda>u. is_duplicate_of c u (similarity_threshold cfg)) us = Some u"
  shows "similar_step cfg (us, led) c
         = (if should_replace cfg u c then (remove1 u us @ [c], led @ [(c, u)])
            else (us, led @ [(u, c)]))"
  using assms by (simp add: similar_step_def)

lemma find_Some_mem: "find P xs = Some x \<Longrightarrow> x \<in> set xs"
  by (auto simp: find_Some_iff)

text \<open>
  C5. Under \<open>keep_most_complete\<close> the survivor of a group of two or more citations is a
  longest one among those with a DOI, or a longest one of the whole group when none has a
  DOI. In the near-duplicate pass, when exactly one of the candidate and the accepted citation
  it duplicates has a DOI, that one is in the accepted list afterwards and the ledger records
  it as kept, whatever the lengths of the two texts.
\<close>

theorem keep_most_complete_prefers_doi:
  assumes "duplicate_strategy cfg = ''keep_most_complete''"
  shows "(2 \<le> length grp \<longrightarrow>
           (\<exists>best. fst (resolve_duplicate_group cfg grp) = [best] \<and> best \<in> set grp
              \<and> (if \<exists>c \<in> set grp. truthy_str (doi c)
                  then truthy_str (doi best)
                       \<and> (\<forall>c \<in> set grp. truthy_str (doi c) \<longrightarrow> length (text c) \<le> length (text best))
                  else (\<forall>c \<in> set grp. length (text c) \<le> length (text best)))))
       \<and> (truthy_str (doi new) \<and> \<not> truthy_str (doi existing) \<longrightarrow> should_replace cfg existing new)
       \<and> (truthy_str (doi existing) \<and> \<not> truthy_str (doi new) \<longrightarrow> \<not> should_replace cfg existing new)
       \<and> (find (\<lambda>u. is_duplicate_of new u (similarity_threshold cfg)) us = Some existing
            \<and> truthy_str (doi new) \<noteq> truthy_str (doi existing) \<longrightarrow>
           (if truthy_str (doi new)
            then new \<in> set (fst (similar_step cfg (us, led) new))
                 \<and> snd (similar_step cfg (us, led) new) = led @ [(new, existing)]
            else existing \<in> set (fst (similar_step cfg (us, led) new))
                 \<and> snd (similar_step cfg (us, led) new) = led @ [(existing, new)]))"
proof -
  have A: "\<exists>best. fst (resolve_duplicate_group cfg grp) = [best] \<and> best \<in> set grp
              \<and> (if \<exists>c \<in> set grp. truthy_str (doi c)
                  then truthy_str (doi best)
                       \<and> (\<forall>c \<in> set grp. truthy_str (doi c) \<longrightarrow> length (text c) \<le> length (text best))
                  else (\<forall>c \<in> set grp. length (text c) \<le> length (text best)))"
    if len: "2 \<le> length grp"
  proof -
    obtain c d ds where grp: "grp = c # d # ds"
      using len by (cases grp; cases "tl grp") auto
    let ?wd = "filter (\<lambda>c. truthy_str (doi c)) grp"
    show ?thesis
    proof (cases ?wd)
      case Nil
      then have none: "\<not> (\<exists>c \<in> set grp. truthy_str (doi c))"
        by (auto simp: filter_empty_conv)
      have r: "fst (resolve_duplicate_group cfg grp) = [max_text c (d # ds)]"
        using resolve_most_complete[OF assms, of c d ds] Nil grp by simp
      have m: "max_text c (d # ds) \<in> set grp"
        using max_text_mem[of c "d # ds"] grp by simp
      have g: "\<forall>x \<in> set grp. length (text x) \<le> length (text (max_text c (d # ds)))"
        using max_text_ge[of _ c "d # ds"] grp by simp
      from r m g none show ?thesis by simp
    next
      case (Cons w ws)
      then have some: "\<exists>c \<in> set grp. truthy_str (doi c)"
        by (metis filter_empty_conv list.distinct(1))
      have r: "fst (resolve_duplicate_group cfg grp) = [max_text w ws]"
        using resolve_most_complete[OF assms, of c d ds] Cons grp by simp
      have mw: "max_text w ws \<in> set ?wd"
        using max_text_mem[of w ws] Cons by simp
      then have m: "max_text w ws \<in> set grp" and dd: "truthy_str (doi (max_text w ws))"
        by simp_all
      have g: "\<forall>x \<in> set grp. truthy_str (doi x) \<longrightarrow> length (text x) \<le> length (text (max_text w ws))"
      proof (intro ballI impI)
        fix x assume "x \<in> set grp" "truthy_str (doi x)"
        then have "x \<in> set ?wd" by simp
        then have "x \<in> set (w # ws)" using Cons by simp
        then show "length (text x) \<le> length (text (max_text w ws))" by (rule max_text_ge)
      qed
      from r m dd g some show ?thesis by simp
    qed
  qed
  have B: "should_replace cfg existing new" if "truthy_str (doi new)" "\<not> truthy_str (doi existing)"
    using that assms by (simp add: should_replace_def)
  have C: "\<not> should_replace cfg existing new" if "truthy_str (doi existing)" "\<not> truthy_str (doi new)"
    using that assms by (simp add: should_replace_def)
  have D: "(if truthy_str (doi new)
            then new \<in> set (fst (similar_step cfg (us, led) new))
                 \<and> snd (similar_step cfg (us, led) new) = led @ [(new, existing)]
            else existing \<in> set (fst (similar_step cfg (us, led) new))
                 \<and> snd (similar_step cfg (us, led) new) = led @ [(existing, new)])"
    if f: "find (\<lambda>u. is_duplicate_of new u (similarity_threshold cfg)) us = Some existing"
      and ne: "truthy_str (doi new) \<noteq> truthy_str (doi existing)"
  proof (cases "truthy_str (doi new)")
    case True
    then have "should_replace cfg existing new" using ne B by simp
    then show ?thesis using True similar_step_found[OF f, of led] by simp
  next
    case False
    then have "\<not> should_replace cfg existing new" using ne C by simp
    then show ?thesis using False similar_step_found[OF f, of led] find_Some_mem[OF f] by simp
  qed
  from A B C D show ?thesis by blast
qed

lemma ratio_nonneg: "0 \<le> ratio a b"
  by (simp add: ratio_def Let_def)

lemma similarity_score_nonneg: "0 \<le> similarity_score a b"
  using ratio_nonneg[of "normalized_text a" "normalized_text b"]
  by (simp add: similarity_score_def Let_def)

lemma smith20_parts:
  "normalize_text (init_fields ''Smith (2020) title'' ''A'' None ''x'') = ''smith  title''"
  "extract_doi (init_fields ''Smith (2020) title'' ''A'' None ''x'') = None"
  "extract_title (init_fields ''Smith (2020) title'' ''A'' None ''x'') = None"
  "extract_year (init_fields ''Smith (2020) title'' ''A'' None ''x'') = Some 2020"
  by code_simp+

lemma doi_ab_parts:
  "normalize_text (init_fields ''doi:10.1/ab'' ''A'' None ''x'') = ''doi101/ab''"
  "extract_doi (init_fields ''doi:10.1/ab'' ''A'' None ''x'') = Some ''10.1/ab''"
  "extract_title (init_fields ''doi:10.1/ab'' ''A'' None ''x'') = None"
  "extract_year (init_fields ''doi:10.1/ab'' ''A'' None ''x'') = None"
  by code_simp+

theorem keep_most_complete_prefers_doi_witness:
  "duplicate_strategy \<lparr>enable_duplicate_detection = True, similarity_threshold = 0,
      duplicate_strategy = ''keep_most_complete'', report_duplicates = True\<rparr> = ''keep_most_complete''
   \<and> 2 \<le> length [Citation ''Smith (2020) title'' ''A'' None ''x'', Citation ''doi:10.1/ab'' ''A'' None ''x'']
   \<and> length (text (Citation ''doi:10.1/ab'' ''A'' None ''x''))
       < length (text (Citation ''Smith (2020) title'' ''A'' None ''x''))
   \<and> fst (resolve_duplicate_group
        \<lparr>enable_duplicate_detection = True, similarity_threshold = 0,
          duplicate_strategy = ''keep_most_complete'', report_duplicates = True\<rparr>
        [Citation ''Smith (2020) title'' ''A'' None ''x'', Citation ''doi:10.1/ab'' ''A'' None ''x''])
      = [Citation ''doi:10.1/ab'' ''A'' None ''x'']
   \<and> should_replace
        \<lparr>enable_duplicate_detection = True, similarity_threshold = 0,
          duplicate_strategy = ''keep_most_complete'', report_duplicates = True\<rparr>
        (Citation ''Smith (2020) title'' ''A'' None ''x'') (Citation ''doi:10.1/ab'' ''A'' None ''x'')
   \<and> \<not> should_replace
        \<lparr>enable_duplicate_detection = True, similarity_threshold = 0,
          duplicate_strategy = ''keep_most_complete'', report_duplicates = True\<rparr>
        (Citation ''doi:10.1/ab'' ''A'' None ''x'') (Citation ''Smith (2020) title'' ''A'' None ''x'')
   \<and> Citation ''doi:10.1/ab'' ''A'' None ''x''
       \<in> set (fst (similar_step
            \<lparr>enable_duplicate_detection = True, similarity_threshold = 0,
              duplicate_strategy = ''keep_most_complete'', report_duplicates = True\<rparr>
            ([Citation ''Smith (2020) title'' ''A'' None ''x''], [])
            (Citation ''doi:10.1/ab'' ''A'' None ''x'')))"
proof -
  let ?cfg = "\<lparr>enable_duplicate_detection = True, similarity_threshold = 0,
      duplicate_strategy = ''keep_most_complete'', report_duplicates = True\<rparr>"
  let ?X = "Citation ''Smith (2020) title'' ''A'' None ''x''"
  let ?Y = "Citation ''doi:10.1/ab'' ''A'' None ''x''"
  have s: "duplicate_strategy ?cfg = ''keep_most_complete''" by simp
  have dX: "\<not> truthy_str (doi ?X)"
    by (simp add: Citation_doi smith20_parts truthy_str_def)
  have dY: "truthy_str (doi ?Y)"
    by (simp add: Citation_doi doi_ab_parts truthy_str_def)
  have f: "find (\<lambda>u. is_duplicate_of ?Y u (similarity_threshold ?cfg)) [?X] = Some ?X"
    by (simp add: is_duplicate_of_def similarity_score_nonneg)
  note th = keep_most_complete_prefers_doi[OF s, of "[?X, ?Y]" ?Y ?X "[?X]" "[]"]
  note th' = keep_most_complete_prefers_doi[OF s, of "[?X, ?Y]" ?X ?Y "[?X]" "[]"]
  from th dX dY obtain best where
    b: "fst (resolve_duplicate_group ?cfg [?X, ?Y]) = [best]" "best \<in> set [?X, ?Y]"
       "truthy_str (doi best)"
    by auto
  from b(2,3) dX have "best = ?Y" by auto
  with b(1) have r: "fst (resolve_duplicate_group ?cfg [?X, ?Y]) = [?Y]" by simp
  have l: "length (text ?Y) < length (text ?X)" by (simp add: Citation_text)
  have sr: "should_replace ?cfg ?X ?Y" using th dX dY by blast
  have nsr: "\<not> should_replace ?cfg ?Y ?X" using th' dX dY by blast
  have m: "?Y \<in> set (fst (similar_step ?cfg ([?X], []) ?Y))" using th f dX dY by auto
  from s r l sr nsr m show ?thesis by simp
qed

section \<open>Dictionaries\<close>

lemma dict_upd_keys:
  "map fst (dict_upd k dflt f xs) = (if k \<in> fst ` set xs then map fst xs else map fst xs @ [k])"
proof (induction xs)
  case Nil
  show ?case by simp
next
  case (Cons x xs)
  obtain k' v where x: "x = (k', v)" by (cases x)
  show ?case
  proof (cases "k' = k")
    case True
    with x show ?thesis by simp
  next
    case False
    with x Cons show ?thesis by (cases "k \<in> fst ` set xs") auto
  qed
qed

lemma dict_upd_distinct:
  "distinct (map fst xs) \<Longrightarrow> distinct (map fst (dict_upd k dflt f xs))"
  by (simp add: dict_upd_keys)

lemma dict_upd_map_of:
  "map_of (dict_upd k dflt f xs) = (map_of xs)(k \<mapsto> f (case map_of xs k of None \<Rightarrow> dflt | Some v \<Rightarrow> v))"
  by (induction xs) (auto simp: fun_eq_iff)

section \<open>Fingerprint groups\<close>

lemma fingerprint_groups_snoc:
  "fingerprint_groups (cs @ [c])
   = dict_upd (fingerprint c) [] (\<lambda>g. g @ [c]) (fingerprint_groups cs)"
  by (simp add: fingerprint_groups_def)

lemma fingerprint_groups_distinct: "distinct (map fst (fingerprint_groups cs))"
proof (induction cs rule: rev_induct)
  case Nil
  show ?case by (simp add: fingerprint_groups_def)
next
  case (snoc c cs)
  then show ?case unfolding fingerprint_groups_snoc by (rule dict_upd_distinct)
qed

lemma fingerprint_groups_map_of:
  "map_of (fingerprint_groups cs) k
   = (if \<exists>c \<in> set cs. fingerprint c = k then Some (filter (\<lambda>c. fingerprint c = k) cs) else None)"
proof (induction cs rule: rev_induct)
  case Nil
  show ?case by (simp add: fingerprint_groups_def)
next
  case (snoc c cs)
  show ?case
  proof (cases "fingerprint c = k")
    case True
    have "filter (\<lambda>c. fingerprint c = k) cs = []" if "\<not> (\<exists>c \<in> set cs. fingerprint c = k)"
      using that by (auto simp: filter_empty_conv)
    then show ?thesis
      unfolding fingerprint_groups_snoc dict_upd_map_of using True snoc.IH by auto
  next
    case False
    then show ?thesis
      unfolding fingerprint_groups_snoc dict_upd_map_of using snoc.IH by auto
  qed
qed

lemma most_complete_best_mem:
  "(case filter (\<lambda>c. truthy_str (doi c)) (c # d # ds) of
      w # ws \<Rightarrow> max_text w ws | [] \<Rightarrow> max_text c (d # ds)) \<in> set (c # d # ds)"
proof (cases "filter (\<lambda>c. truthy_str (doi c)) (c # d # ds)")
  case Nil
  then show ?thesis using max_text_mem[of c "d # ds"] by simp
next
  case (Cons w ws)
  have "max_text w ws \<in> set (filter (\<lambda>c. truthy_str (doi c)) (c # d # ds))"
    using max_text_mem[of w ws] Cons by simp
  then have "max_text w ws \<in> set (c # d # ds)" by (metis filter_is_subset subsetD)
  then show ?thesis using Cons by simp
qed

lemma resolve_one_survivor:
  assumes "duplicate_strategy cfg \<in> {''keep_first'', ''keep_longest'', ''keep_most_complete''}"
    and "g \<noteq> []"
  shows "\<exists>s. fst (resolve_duplicate_group cfg g) = [s] \<and> s \<in> set g"
proof (cases g)
  case Nil
  with assms(2) show ?thesis by simp
next
  case (Cons c g')
  show ?thesis
  proof (cases g')
    case Nil
    with Cons show ?thesis by simp
  next
    case (Cons d ds)
    note g = \<open>g = c # g'\<close> Cons
    consider (first) "duplicate_strategy cfg = ''keep_first''"
      | (longest) "duplicate_strategy cfg = ''keep_longest''"
      | (complete) "duplicate_strategy cfg = ''keep_most_complete''"
      using assms(1) by auto
    then show ?thesis
    proof cases
      case first
      then show ?thesis using g by simp
    next
      case longest
      then show ?thesis using g max_text_mem[of c "d # ds"] by (simp add: Let_def)
    next
      case complete
      then show ?thesis
        using g resolve_most_complete[OF complete, of c d ds] most_complete_best_mem[of c d ds]
        by simp
    qed
  qed
qed

lemma generate_fingerprint_doi:
  "truthy_str (doi a) \<Longrightarrow> generate_fingerprint a = md5 (''doi:'' @ the (doi a))"
  by (simp add: generate_fingerprint_def)

text \<open>
  C4. Two citations whose extracted DOIs are present and equal have the same fingerprint, so
  they are members of one and the same fingerprint group, and under each of the three
  strategies that group is resolved to exactly one survivor, a member of the group.
\<close>

theorem same_doi_same_group_one_survivor:
  assumes "a = Citation ta aa ya ca" and "b = Citation tb ab yb cb"
    and "truthy_str (doi a)" and "doi a = doi b"
    and "a \<in> set cs" and "b \<in> set cs"
    and "duplicate_strategy cfg \<in> {''keep_first'', ''keep_longest'', ''keep_most_complete''}"
  shows "fingerprint a = fingerprint b
       \<and> distinct (map fst (fingerprint_groups cs))
       \<and> (\<exists>g. (fingerprint a, g) \<in> set (fingerprint_groups cs) \<and> a \<in> set g \<and> b \<in> set g
              \<and> (\<exists>s. fst (resolve_duplicate_group cfg g) = [s] \<and> s \<in> set g
                     \<and> fst (group_step cfg (us, led) (fingerprint a, g)) = us @ [s]))"
proof -
  have fa: "fingerprint a = md5 (''doi:'' @ the (doi a))"
    using assms(1,3) Citation_fingerprint[of ta aa ya ca] generate_fingerprint_doi[of a] by simp
  have fb: "fingerprint b = md5 (''doi:'' @ the (doi b))"
    using assms(2,3,4) Citation_fingerprint[of tb ab yb cb] generate_fingerprint_doi[of b] by simp
  have eq: "fingerprint a = fingerprint b" using fa fb assms(4) by simp
  let ?g = "filter (\<lambda>c. fingerprint c = fingerprint a) cs"
  have m: "map_of (fingerprint_groups cs) (fingerprint a) = Some ?g"
    using fingerprint_groups_map_of[of cs "fingerprint a"] assms(5) by auto
  then have mem: "(fingerprint a, ?g) \<in> set (fingerprint_groups cs)" by (rule map_of_SomeD)
  have ag: "a \<in> set ?g" using assms(5) by simp
  have bg: "b \<in> set ?g" using assms(6) eq by simp
  have ne: "?g \<noteq> []" using assms(5) by (auto simp: filter_empty_conv)
  from resolve_one_survivor[OF assms(7) ne] obtain s where
    s: "fst (resolve_duplicate_group cfg ?g) = [s]" "s \<in> set ?g" by blast
  have gs: "fst (group_step cfg (us, led) (fingerprint a, ?g)) = us @ [s]"
  proof (cases "length ?g = 1")
    case True
    then obtain x where x: "?g = [x]" by (cases ?g) auto
    then have "fst (resolve_duplicate_group cfg ?g) = [x]" by simp
    with s(1) have "x = s" by simp
    with x True show ?thesis by (simp add: group_step_def)
  next
    case False
    then show ?thesis using s(1)
      by (cases "resolve_duplicate_group cfg ?g") (simp add: group_step_def)
  qed
  from eq fingerprint_groups_distinct mem ag bg s gs show ?thesis by blast
qed

lemma see_doi_ab_doi:
  "extract_doi (init_fields ''see doi:10.1/ab'' ''B'' None ''x'') = Some ''10.1/ab''"
  by code_simp

theorem same_doi_same_group_one_survivor_witness:
  "truthy_str (doi (Citation ''doi:10.1/ab'' ''A'' None ''x''))
   \<and> doi (Citation ''doi:10.1/ab'' ''A'' None ''x'') = doi (Citation ''see doi:10.1/ab'' ''B'' None ''x'')
   \<and> text (Citation ''doi:10.1/ab'' ''A'' None ''x'') \<noteq> text (Citation ''see doi:10.1/ab'' ''B'' None ''x'')
   \<and> fingerprint (Citation ''doi:10.1/ab'' ''A'' None ''x'')
       = fingerprint (Citation ''see doi:10.1/ab'' ''B'' None ''x'')
   \<and> (\<exists>g. (fingerprint (Citation ''doi:10.1/ab'' ''A'' None ''x''), g)
            \<in> set (fingerprint_groups
                 [Citation ''doi:10.1/ab'' ''A'' None ''x'', Citation ''see doi:10.1/ab'' ''B'' None ''x''])
          \<and> Citation ''doi:10.1/ab'' ''A'' None ''x'' \<in> set g
          \<and> Citation ''see doi:10.1/ab'' ''B'' None ''x'' \<in> set g
          \<and> (\<exists>s. fst (resolve_duplicate_group
                        \<lparr>enable_duplicate_detection = True, similarity_threshold = 85 / 100,
                          duplicate_strategy = ''keep_longest'', report_duplicates = True\<rparr> g) = [s]
                 \<and> s \<in> set g))"
proof -
  let ?cfg = "\<lparr>enable_duplicate_detection = True, similarity_threshold = 85 / 100,
                duplicate_strategy = ''keep_longest'', report_duplicates = True\<rparr>"
  let ?a = "Citation ''doi:10.1/ab'' ''A'' None ''x''"
  let ?b = "Citation ''see doi:10.1/ab'' ''B'' None ''x''"
  have h1: "truthy_str (doi ?a)" by (simp add: Citation_doi doi_ab_parts truthy_str_def)
  have h2: "doi ?a = doi ?b" by (simp add: Citation_doi doi_ab_parts see_doi_ab_doi)
  have h3: "duplicate_strategy ?cfg \<in> {''keep_first'', ''keep_longest'', ''keep_most_complete''}"
    by simp
  have t: "text ?a \<noteq> text ?b" by (simp add: Citation_text)
  have "fingerprint ?a = fingerprint ?b
       \<and> distinct (map fst (fingerprint_groups [?a, ?b]))
       \<and> (\<exists>g. (fingerprint ?a, g) \<in> set (fingerprint_groups [?a, ?b]) \<and> ?a \<in> set g \<and> ?b \<in> set g
              \<and> (\<exists>s. fst (resolve_duplicate_group ?cfg g) = [s] \<and> s \<in> set g
                     \<and> fst (group_step ?cfg ([], []) (fingerprint ?a, g)) = [] @ [s]))"
    by (rule same_doi_same_group_one_survivor[OF refl refl h1 h2 _ _ h3]) simp_all
  with h1 h2 t show ?thesis by blast
qed

end
